theory Spec2Isabelle
  imports Complex_Main "HOL-Library.AList"
begin

section \<open>Conventions\<close>

text \<open>
  TraceHub keeps its state in module-level dictionaries and in one SQLite table. Every
  operation is modelled as a function that takes the state it touches and returns the
  new one. Each reading of \<^verbatim>\<open>time.time()\<close> is an explicit argument \<open>now\<close>. Clock
  values and trace timestamps are Python floats; they are modelled as exact reals, as
  only their order and sums with the configured horizons matter below.

  A Python \<^verbatim>\<open>dict\<close> is an association list in insertion order. The keys of a dict are
  distinct; where a result depends on it, this is the hypothesis \<open>distinct (map fst d)\<close>.
\<close>

section \<open>Adaptive sampling controller (adaptive.py)\<close>

datatype tstate = Hot | Warm | Cold

text \<open>One value of \<^verbatim>\<open>_adaptive_state\<close>: \<^verbatim>\<open>{"state", "expires_at", "queried_at"}\<close>.\<close>

record centry =
  state :: tstate
  expires_at :: real
  queried_at :: real

text \<open>The module globals \<^verbatim>\<open>_adaptive_state\<close> and \<^verbatim>\<open>_config_etag\<close>.\<close>

record adaptive =
  adaptive_state :: "(string \<times> centry) list"
  config_etag :: int

definition get_state :: "adaptive \<Rightarrow> string \<Rightarrow> tstate" where
  "get_state s corr_id =
     (case map_of (adaptive_state s) corr_id of
        None \<Rightarrow> Cold
      | Some entry \<Rightarrow> state entry)"

text \<open>
  \<^verbatim>\<open>mark_hot\<close>; the first argument is \<^verbatim>\<open>ADAPTIVE_HOT_TTL\<close>, an integer read from the
  environment (default 300).
\<close>

definition mark_hot :: "int \<Rightarrow> real \<Rightarrow> string \<Rightarrow> adaptive \<Rightarrow> tstate \<times> adaptive" where
  "mark_hot hot_ttl now corr_id s =
     (let prev = get_state s corr_id in
      (prev,
       s\<lparr>adaptive_state :=
            AList.update corr_id
              \<lparr>state = Hot, expires_at = now + of_int hot_ttl, queried_at = now\<rparr>
              (adaptive_state s),
          config_etag := config_etag s + 1\<rparr>))"

text \<open>
  The first loop of \<^verbatim>\<open>cooldown_tick\<close>: it rewrites expired HOT entries in place and
  collects the keys of expired WARM entries. The result is the dictionary after the
  loop, the flag \<^verbatim>\<open>changed\<close> and the list \<^verbatim>\<open>to_remove\<close>. The first argument is
  \<^verbatim>\<open>ADAPTIVE_WARM_TTL\<close> (default 1500).
\<close>

fun tick_loop ::
  "int \<Rightarrow> real \<Rightarrow> (string \<times> centry) list \<Rightarrow> (string \<times> centry) list \<times> bool \<times> string list"
where
  "tick_loop warm_ttl now [] = ([], False, [])"
| "tick_loop warm_ttl now ((corr_id, entry) # rest) =
     (case tick_loop warm_ttl now rest of (rest', changed, to_remove) \<Rightarrow>
        if expires_at entry > now then ((corr_id, entry) # rest', changed, to_remove)
        else if state entry = Hot then
          ((corr_id, entry\<lparr>state := Warm, expires_at := now + of_int warm_ttl\<rparr>) # rest',
           True, to_remove)
        else if state entry = Warm then
          ((corr_id, entry) # rest', True, corr_id # to_remove)
        else ((corr_id, entry) # rest', changed, to_remove))"

definition cooldown_tick :: "int \<Rightarrow> real \<Rightarrow> adaptive \<Rightarrow> adaptive" where
  "cooldown_tick warm_ttl now s =
     (case tick_loop warm_ttl now (adaptive_state s) of (items, changed, to_remove) \<Rightarrow>
        s\<lparr>adaptive_state := foldl (\<lambda>d corr_id. AList.delete corr_id d) items to_remove,
          config_etag := (if changed then config_etag s + 1 else config_etag s)\<rparr>)"

text \<open>The handlers of \<^verbatim>\<open>POST /tracing/enable/{id}\<close> and \<^verbatim>\<open>POST /tracing/disable/{id}\<close>;
  the value returned beside the state is the \<^verbatim>\<open>previous_state\<close> of the response.\<close>

definition tracing_enable :: "int \<Rightarrow> real \<Rightarrow> string \<Rightarrow> adaptive \<Rightarrow> tstate \<times> adaptive" where
  "tracing_enable hot_ttl now corr_id s = mark_hot hot_ttl now corr_id s"

definition tracing_disable :: "string \<Rightarrow> adaptive \<Rightarrow> tstate \<times> adaptive" where
  "tracing_disable corr_id s =
     (let previous = get_state s corr_id in
      if corr_id \<in> fst ` set (adaptive_state s) then
        (previous,
         s\<lparr>adaptive_state := AList.delete corr_id (adaptive_state s),
           config_etag := config_etag s + 1\<rparr>)
      else (previous, s))"


section \<open>Trace entries and the trace table (models.py, db.py)\<close>

text \<open>
  \<^verbatim>\<open>TraceEntry\<close>. The payload \<^verbatim>\<open>data\<close> is an optional dictionary that the server never
  looks into, except for its truth value (an empty dictionary is false in Python).
\<close>

record trace =
  source_id :: string
  correlation_id :: string
  timestamp :: real
  suffix :: string
  direction :: string
  operation :: string
  endpoint :: string
  data :: "(string \<times> string) list option"
  hostname :: string
  raw_line :: "string option"

text \<open>
  A row of the table \<^verbatim>\<open>traces\<close>: the columns of a trace entry, the primary key
  \<^verbatim>\<open>id\<close> and the storage time \<^verbatim>\<open>created_at\<close>.
\<close>

record row = trace +
  row_id :: int
  created_at :: real

text \<open>
  The table in rowid order, and the next value of its \<^verbatim>\<open>AUTOINCREMENT\<close> key. The
  storage engine is an in-memory table here: the one fault it raises is the violation
  of \<^verbatim>\<open>UNIQUE(correlation_id, timestamp, suffix)\<close>.
\<close>

record table =
  rows :: "row list"
  next_id :: int

datatype sql_error = IntegrityError

text \<open>The module global \<^verbatim>\<open>_stats\<close>; the key \<^verbatim>\<open>ingest_deduped\<close> is absent until
  \<^verbatim>\<open>insert_trace\<close> creates it with \<^verbatim>\<open>setdefault\<close>.\<close>

record stats =
  ingest_total :: int
  ingest_duplicates :: int
  queries_total :: int
  recent_requests :: int
  started_at :: real
  ingest_deduped :: "int option"

text \<open>The \<^verbatim>\<open>WHERE\<close> clause of the \<^verbatim>\<open>UPDATE\<close> in \<^verbatim>\<open>insert_trace\<close>.\<close>

definition soft_match :: "real \<Rightarrow> trace \<Rightarrow> row \<Rightarrow> bool" where
  "soft_match now tr r \<longleftrightarrow>
     source_id r = source_id tr \<and> correlation_id r = correlation_id tr \<and>
     endpoint r = endpoint tr \<and> direction r = direction tr \<and>
     created_at r > now - 300"

text \<open>Two rows collide under \<^verbatim>\<open>UNIQUE(correlation_id, timestamp, suffix)\<close>.\<close>

definition same_identity :: "'a trace_scheme \<Rightarrow> 'b trace_scheme \<Rightarrow> bool" where
  "same_identity r r' \<longleftrightarrow>
     correlation_id r = correlation_id r' \<and> timestamp r = timestamp r' \<and>
     suffix r = suffix r'"

text \<open>
  \<^verbatim>\<open>UPDATE traces SET timestamp = ?, created_at = ? WHERE ...\<close>: every matching row
  is rewritten. The statement fails, and changes nothing, when a rewritten row would
  share its identity triple with another row of the table. On success the second
  component is the cursor's \<^verbatim>\<open>rowcount\<close>, the number of matching rows.
\<close>

definition sql_update :: "real \<Rightarrow> trace \<Rightarrow> row list \<Rightarrow> sql_error + row list \<times> nat" where
  "sql_update now tr rs =
     (let rs' = map (\<lambda>r. if soft_match now tr r
                          then r\<lparr>timestamp := timestamp tr, created_at := now\<rparr> else r) rs
      in if \<exists>r \<in> set rs. \<exists>r' \<in> set rs'.
              soft_match now tr r \<and> row_id r' \<noteq> row_id r \<and>
              correlation_id r' = correlation_id r \<and> timestamp r' = timestamp tr \<and>
              suffix r' = suffix r
         then Inl IntegrityError
         else Inr (rs', length (filter (soft_match now tr) rs)))"

text \<open>
  \<^verbatim>\<open>INSERT OR IGNORE INTO traces ...\<close>: nothing is inserted when a row with the same
  identity triple exists. The column \<^verbatim>\<open>created_at\<close> takes its default
  \<^verbatim>\<open>strftime('%s', 'now')\<close>, the database clock in whole seconds, given as \<open>db_now\<close>.
  The second component is the number of rows the statement changed.
\<close>

definition new_row :: "int \<Rightarrow> int \<Rightarrow> trace \<Rightarrow> row" where
  "new_row rid db_now tr =
     \<lparr>source_id = source_id tr, correlation_id = correlation_id tr,
      timestamp = timestamp tr, suffix = suffix tr, direction = direction tr,
      operation = operation tr, endpoint = endpoint tr,
      data = (if data tr = None \<or> data tr = Some [] then None else data tr),
      hostname = hostname tr, raw_line = raw_line tr,
      row_id = rid, created_at = of_int db_now\<rparr>"

definition sql_insert_or_ignore :: "int \<Rightarrow> trace \<Rightarrow> table \<Rightarrow> table \<times> nat" where
  "sql_insert_or_ignore db_now tr d =
     (if \<exists>r \<in> set (rows d). same_identity r tr then (d, 0)
      else (d\<lparr>rows := rows d @ [new_row (next_id d) db_now tr],
              next_id := next_id d + 1\<rparr>, 1))"

text \<open>
  \<^verbatim>\<open>insert_trace\<close>. \<open>now\<close> is its reading of \<^verbatim>\<open>time.time()\<close>, \<open>db_now\<close> the database
  clock used for a new row. Each call opens its own connection, so \<^verbatim>\<open>total_changes\<close>
  at the end counts the rows changed by the two statements of this call.
\<close>

definition insert_trace ::
  "real \<Rightarrow> int \<Rightarrow> trace \<Rightarrow> table \<Rightarrow> stats \<Rightarrow> bool \<times> table \<times> stats"
where
  "insert_trace now db_now tr d st =
     (case sql_update now tr (rows d) of
        Inl err \<Rightarrow> (False, d, st)
      | Inr (rs', rowcount) \<Rightarrow>
          if rowcount > 0 then
            (False, d\<lparr>rows := rs'\<rparr>,
             st\<lparr>ingest_deduped :=
                  Some ((case ingest_deduped st of None \<Rightarrow> 0 | Some n \<Rightarrow> n) + 1)\<rparr>)
          else
            (case sql_insert_or_ignore db_now tr (d\<lparr>rows := rs'\<rparr>) of
               (d', changes) \<Rightarrow> (rowcount + changes > 0, d', st)))"

text \<open>
  \<^verbatim>\<open>query_traces\<close>: the optional filters apply when their argument is true in Python
  (a non-empty string, a non-zero number); rows come back by ascending timestamp.
\<close>

definition query_traces :: "string \<Rightarrow> string option \<Rightarrow> real option \<Rightarrow> table \<Rightarrow> trace list" where
  "query_traces corr_id src since_ts d =
     map trace.truncate
       (sort_key timestamp
          (filter (\<lambda>r. correlation_id r = corr_id \<and>
                       (case src of None \<Rightarrow> True | Some sid \<Rightarrow> sid = [] \<or> source_id r = sid) \<and>
                       (case since_ts of None \<Rightarrow> True | Some ts \<Rightarrow> ts = 0 \<or> timestamp r > ts))
             (rows d)))"

text \<open>\<^verbatim>\<open>cleanup_old_traces\<close>; \<open>retention_hours\<close> is \<^verbatim>\<open>TRACEHUB_RETENTION_HOURS\<close>.\<close>

definition cleanup_old_traces :: "int \<Rightarrow> real \<Rightarrow> table \<Rightarrow> nat \<times> table" where
  "cleanup_old_traces retention_hours now d =
     (let cutoff = now - of_int (retention_hours * 3600) in
      (length (filter (\<lambda>r. created_at r < cutoff) (rows d)),
       d\<lparr>rows := filter (\<lambda>r. \<not> created_at r < cutoff) (rows d)\<rparr>))"

section \<open>Subscriber broadcast (streaming.py)\<close>

text \<open>
  An \<^verbatim>\<open>asyncio.Queue\<close> is a heap object: \<^verbatim>\<open>_subscribers\<close> and the stream handler hold
  references to the same queue. A reference is a number, \<open>queues\<close> maps it to the
  queue's contents (oldest first), and \<open>next_queue\<close> is the next unused reference.
  Every queue is made with \<^verbatim>\<open>maxsize=100\<close>.
\<close>

record broadcast =
  subscribers :: "(string \<times> nat list) list"
  subscriber_timestamps :: "(string \<times> real) list"
  queues :: "nat \<Rightarrow> trace list"
  next_queue :: nat

definition maxsize :: nat where
  "maxsize = 100"

definition subscribe :: "real \<Rightarrow> string \<Rightarrow> broadcast \<Rightarrow> nat \<times> broadcast" where
  "subscribe now corr_id b =
     (let bucket = (case map_of (subscribers b) corr_id of None \<Rightarrow> [] | Some qs \<Rightarrow> qs);
          queue = next_queue b
      in (queue,
          b\<lparr>subscribers := AList.update corr_id (bucket @ [queue]) (subscribers b),
            subscriber_timestamps := AList.update corr_id now (subscriber_timestamps b),
            queues := (queues b)(queue := []),
            next_queue := queue + 1\<rparr>))"

text \<open>\<^verbatim>\<open>unsubscribe\<close>; \<^verbatim>\<open>list.remove\<close> raises \<^verbatim>\<open>ValueError\<close> for a queue that is not in
  the bucket, which the handler swallows.\<close>

definition unsubscribe :: "string \<Rightarrow> nat \<Rightarrow> broadcast \<Rightarrow> broadcast" where
  "unsubscribe corr_id queue b =
     (case map_of (subscribers b) corr_id of
        None \<Rightarrow> b
      | Some bucket \<Rightarrow>
          if queue \<in> set bucket then
            (let bucket' = remove1 queue bucket in
             if bucket' = []
             then b\<lparr>subscribers := AList.delete corr_id (subscribers b)\<rparr>
             else b\<lparr>subscribers := AList.update corr_id bucket' (subscribers b)\<rparr>)
          else b)"

text \<open>
  The fan-out loop of \<^verbatim>\<open>notify_subscribers\<close>: \<^verbatim>\<open>put_nowait\<close> appends to a queue with
  room and raises \<^verbatim>\<open>QueueFull\<close> for a queue holding \<open>maxsize\<close> items. The result is
  the heap after the loop and \<^verbatim>\<open>dead_queues\<close>.
\<close>

fun fan_out :: "trace \<Rightarrow> nat list \<Rightarrow> (nat \<Rightarrow> trace list) \<Rightarrow> (nat \<Rightarrow> trace list) \<times> nat list" where
  "fan_out tr [] qs = (qs, [])"
| "fan_out tr (queue # rest) qs =
     (if length (qs queue) \<ge> maxsize then
        (case fan_out tr rest qs of (qs', dead_queues) \<Rightarrow> (qs', queue # dead_queues))
      else fan_out tr rest (qs(queue := qs queue @ [tr])))"

definition notify_subscribers :: "trace \<Rightarrow> broadcast \<Rightarrow> broadcast" where
  "notify_subscribers tr b =
     (let corr_id = correlation_id tr in
      case map_of (subscribers b) corr_id of
        None \<Rightarrow> b
      | Some bucket \<Rightarrow>
          (case fan_out tr bucket (queues b) of (qs', dead_queues) \<Rightarrow>
             let bucket' = foldl (\<lambda>l q. remove1 q l) bucket dead_queues in
             if bucket' = []
             then b\<lparr>subscribers := AList.delete corr_id (subscribers b),
                    subscriber_timestamps := AList.delete corr_id (subscriber_timestamps b),
                    queues := qs'\<rparr>
             else b\<lparr>subscribers := AList.update corr_id bucket' (subscribers b),
                    queues := qs'\<rparr>))"

definition cleanup_stale_subscribers :: "real \<Rightarrow> broadcast \<Rightarrow> broadcast" where
  "cleanup_stale_subscribers now b =
     (let cutoff = now - 300;
          stale = map fst (filter (\<lambda>(cid, ts). ts < cutoff) (subscriber_timestamps b))
      in b\<lparr>subscribers := filter (\<lambda>p. fst p \<notin> set stale) (subscribers b),
           subscriber_timestamps :=
             filter (\<lambda>p. fst p \<notin> set stale) (subscriber_timestamps b)\<rparr>)"

section \<open>HTTP handlers (endpoints.py)\<close>

datatype http_error = Unauthorized | Forbidden | Unprocessable | TooManyRequests

text \<open>
  The dependency \<^verbatim>\<open>verify_secret\<close> of the two ingest routes: status 401 without the
  header, 403 with a wrong one. The first argument is \<^verbatim>\<open>TRACEHUB_SECRET\<close>.
\<close>

definition verify_secret :: "string \<Rightarrow> string option \<Rightarrow> http_error + bool" where
  "verify_secret secret x_tracehub_secret =
     (if secret = [] then Inr True
      else case x_tracehub_secret of
             None \<Rightarrow> Inl Unauthorized
           | Some x \<Rightarrow>
               if x = [] then Inl Unauthorized
               else if x \<noteq> secret then Inl Forbidden
               else Inr True)"

text \<open>The state the handlers share: the table and the globals of config.py.\<close>

record hub =
  db :: table
  stats :: stats
  recent_rate_window :: "real list"
  source_ingest_window :: "(string \<times> real list) list"
  source_ingest_totals :: "(string \<times> int) list"
  bcast :: broadcast

text \<open>
  \<^verbatim>\<open>POST /ingest/single\<close>. Beside the secret and the header, the arguments are the two
  clock readings of \<^verbatim>\<open>insert_trace\<close> and the entry.
\<close>

definition ingest_single_trace ::
  "string \<Rightarrow> string option \<Rightarrow> real \<Rightarrow> int \<Rightarrow> trace \<Rightarrow> hub \<Rightarrow> (http_error + bool) \<times> hub"
where
  "ingest_single_trace secret hdr now db_now tr s =
     (case verify_secret secret hdr of
        Inl e \<Rightarrow> (Inl e, s)
      | Inr ok \<Rightarrow>
          (case insert_trace now db_now tr (db s) (stats s) of (inserted, d', st') \<Rightarrow>
             (Inr inserted,
              s\<lparr>db := d', stats := st',
                bcast := (if inserted then notify_subscribers tr (bcast s) else bcast s)\<rparr>)))"

text \<open>
  The loop of \<^verbatim>\<open>POST /ingest\<close>. \<open>now\<close> is read once before the loop; every entry
  comes with the two clock readings of its own \<^verbatim>\<open>insert_trace\<close> call. The first
  component of the result is \<^verbatim>\<open>inserted\<close>.
\<close>

fun ingest_loop :: "real \<Rightarrow> (trace \<times> real \<times> int) list \<Rightarrow> hub \<Rightarrow> int \<times> hub" where
  "ingest_loop now [] s = (0, s)"
| "ingest_loop now ((tr, t, db_t) # rest) s =
     (case insert_trace t db_t tr (db s) (stats s) of (ins, d', st') \<Rightarrow>
        let s1 = s\<lparr>db := d', stats := st',
                   bcast := (if ins then notify_subscribers tr (bcast s) else bcast s)\<rparr>;
            sid = source_id tr;
            window = (case map_of (source_ingest_window s1) sid of None \<Rightarrow> [] | Some w \<Rightarrow> w);
            total = (case map_of (source_ingest_totals s1) sid of None \<Rightarrow> 0 | Some n \<Rightarrow> n);
            s2 = s1\<lparr>source_ingest_window :=
                       AList.update sid (window @ [now]) (source_ingest_window s1),
                     source_ingest_totals :=
                       AList.update sid (total + 1) (source_ingest_totals s1)\<rparr>
        in case ingest_loop now rest s2 of
             (inserted, s3) \<Rightarrow> ((if ins then 1 else 0) + inserted, s3))"

record ingest_response =
  accepted :: int
  inserted :: int
  duplicates :: int

definition ingest_traces ::
  "string \<Rightarrow> string option \<Rightarrow> real \<Rightarrow> (trace \<times> real \<times> int) list \<Rightarrow> hub \<Rightarrow>
   (http_error + ingest_response) \<times> hub"
where
  "ingest_traces secret hdr now traces s =
     (case verify_secret secret hdr of
        Inl e \<Rightarrow> (Inl e, s)
      | Inr ok \<Rightarrow>
          (case ingest_loop now traces s of (n, s1) \<Rightarrow>
             (Inr \<lparr>accepted = int (length traces), inserted = n,
                   duplicates = int (length traces) - n\<rparr>,
              s1\<lparr>stats := (stats s1)
                   \<lparr>ingest_total := ingest_total (stats s1) + n,
                    ingest_duplicates :=
                      ingest_duplicates (stats s1) + (int (length traces) - n)\<rparr>\<rparr>)))"

text \<open>
  \<^verbatim>\<open>GET /recent\<close>. The framework rejects \<^verbatim>\<open>limit > 1000\<close> (declared \<^verbatim>\<open>le=1000\<close>)
  before the handler runs. The operator \<^verbatim>\<open>LIKE\<close> of the storage engine is the
  parameter \<open>like\<close> (pattern first). A negative \<^verbatim>\<open>LIMIT\<close> means no limit in SQLite.
  The page is the last \<open>limit\<close> matching rows by \<^verbatim>\<open>id\<close>, oldest first.
  An item of the page is \<^verbatim>\<open>(id, source_id, correlation_id, timestamp, direction,
  operation, endpoint, data)\<close>.
\<close>

type_synonym recent_item =
  "int \<times> string \<times> string \<times> real \<times> string \<times> string \<times> string \<times> (string \<times> string) list option"

definition recent_item :: "row \<Rightarrow> recent_item" where
  "recent_item r =
     (row_id r, source_id r, correlation_id r, timestamp r, direction r, operation r,
      endpoint r, data r)"

definition sql_limit :: "int \<Rightarrow> 'a list \<Rightarrow> 'a list" where
  "sql_limit n xs = (if n < 0 then xs else take (nat n) xs)"

definition select_recent ::
  "(string \<Rightarrow> string \<Rightarrow> bool) \<Rightarrow> int \<Rightarrow> int option \<Rightarrow> string option \<Rightarrow> table \<Rightarrow> recent_item list"
where
  "select_recent like limit since_id source d =
     rev (map recent_item
       (sql_limit limit
          (rev (sort_key row_id (filter
             (\<lambda>r. (case since_id of None \<Rightarrow> True | Some i \<Rightarrow> row_id r > i) \<and>
                   (case source of None \<Rightarrow> True
                    | Some src \<Rightarrow> src = [] \<or> like (src @ ''%'') (source_id r)) \<and>
                   correlation_id r \<noteq> ''-'')
             (rows d))))))"

definition get_recent_traces ::
  "(string \<Rightarrow> string \<Rightarrow> bool) \<Rightarrow> real \<Rightarrow> int \<Rightarrow> int option \<Rightarrow> string option \<Rightarrow> hub \<Rightarrow>
   (http_error + recent_item list) \<times> hub"
where
  "get_recent_traces like now limit since_id source s =
     (if limit > 1000 then (Inl Unprocessable, s)
      else
        let s1 = s\<lparr>recent_rate_window := recent_rate_window s @ [now],
                   stats := (stats s)\<lparr>recent_requests := recent_requests (stats s) + 1\<rparr>\<rparr>;
            recent_count = length (filter (\<lambda>t. now - t < 60) (recent_rate_window s1))
        in if recent_count > 30 then (Inl TooManyRequests, s1)
           else (Inr (select_recent like limit since_id source (db s1)), s1))"

text \<open>
  \<^verbatim>\<open>GET /traces/{correlation_id}/stream\<close>: the generator \<^verbatim>\<open>event_generator\<close>. What
  it emits is a list of events; how it is left is one of: the deadline passed and the
  generator ran to its end, an exception was raised in the loop, the client went away
  (the generator is closed or cancelled at the point where it waits), or the same
  during the replay of the stored history.
\<close>

datatype sse = Data trace | KeepaliveComment | TimeoutMarker

datatype exit_path = Expired | Raised | Disconnected | ReplayAborted

text \<open>
  One round of the \<^verbatim>\<open>while\<close> loop as the environment decides it: the queue hands over
  an entry within a second, the wait times out, an exception is raised, or the client
  goes away. Each round is paired with the clock reading of the loop test.
\<close>

datatype round = Deliver trace | Idle | Fault | Disconnect

text \<open>
  The loop. A script that ends while the loop is still running gives \<open>None\<close>: the
  handler has not been left yet.
\<close>

fun stream_loop :: "real \<Rightarrow> (real \<times> round) list \<Rightarrow> sse list \<times> exit_path option" where
  "stream_loop deadline [] = ([], None)"
| "stream_loop deadline ((t, r) # rest) =
     (if t < deadline then
        (case r of
           Deliver tr \<Rightarrow>
             (case stream_loop deadline rest of (evs, ex) \<Rightarrow> (Data tr # evs, ex))
         | Idle \<Rightarrow>
             (case stream_loop deadline rest of (evs, ex) \<Rightarrow> (KeepaliveComment # evs, ex))
         | Fault \<Rightarrow> ([], Some Raised)
         | Disconnect \<Rightarrow> ([], Some Disconnected))
      else ([], Some Expired))"

text \<open>
  The generator. \<open>replay\<close> is \<open>None\<close> when the whole stored history is sent, and
  \<open>Some n\<close> when the generator is left after \<open>n\<close> replayed events, before it subscribes.
  \<open>now\<close> is the clock at \<^verbatim>\<open>subscribe\<close>, \<open>start\<close> the clock when the deadline is
  computed. The \<^verbatim>\<open>finally\<close> block runs \<^verbatim>\<open>unsubscribe\<close> however the loop is left; the
  final \<^verbatim>\<open>yield\<close> follows the \<^verbatim>\<open>try\<close> statement.
\<close>

definition event_generator ::
  "string \<Rightarrow> int \<Rightarrow> nat option \<Rightarrow> real \<Rightarrow> real \<Rightarrow> (real \<times> round) list \<Rightarrow> hub \<Rightarrow>
   (sse list \<times> exit_path option) \<times> hub"
where
  "event_generator corr_id timeout replay now start script s =
     (let existing = map Data (query_traces corr_id None None (db s)) in
      case replay of
        Some n \<Rightarrow> ((take n existing, Some ReplayAborted), s)
      | None \<Rightarrow>
          (case subscribe now corr_id (bcast s) of (queue, b1) \<Rightarrow>
             (case stream_loop (start + of_int timeout) script of
                (evs, None) \<Rightarrow> ((existing @ evs, None), s\<lparr>bcast := b1\<rparr>)
              | (evs, Some Expired) \<Rightarrow>
                  ((existing @ evs @ [TimeoutMarker], Some Expired),
                   s\<lparr>bcast := unsubscribe corr_id queue b1\<rparr>)
              | (evs, Some ex) \<Rightarrow>
                  ((existing @ evs, Some ex), s\<lparr>bcast := unsubscribe corr_id queue b1\<rparr>))))"

section \<open>Notions used in the statements\<close>

text \<open>The queues registered under a correlation id (none when it has no bucket).\<close>

definition listeners :: "broadcast \<Rightarrow> string \<Rightarrow> nat list" where
  "listeners b corr_id =
     (case map_of (subscribers b) corr_id of None \<Rightarrow> [] | Some bucket \<Rightarrow> bucket)"

text \<open>
  \<^verbatim>\<open>subscribe\<close> makes a new queue for every registration, so a queue is registered at
  most once: the keys of \<^verbatim>\<open>_subscribers\<close> are distinct and no queue occurs twice in
  its buckets.
\<close>

definition registered_once :: "broadcast \<Rightarrow> bool" where
  "registered_once b \<longleftrightarrow>
     distinct (map fst (subscribers b)) \<and> distinct (concat (map snd (subscribers b)))"

text \<open>Moreover every registered queue was made before: its reference is below the next
  unused one.\<close>

definition fresh_queues :: "broadcast \<Rightarrow> bool" where
  "fresh_queues b \<longleftrightarrow>
     registered_once b \<and>
     list_all (\<lambda>q. q < next_queue b) (concat (map snd (subscribers b)))"

text \<open>The identity triple of an entry or a row.\<close>

definition identity :: "'a trace_scheme \<Rightarrow> string \<times> real \<times> string" where
  "identity r = (correlation_id r, timestamp r, suffix r)"


text \<open>
  The table satisfies its constraints: the primary keys are distinct and below the
  next \<^verbatim>\<open>AUTOINCREMENT\<close> value, and \<^verbatim>\<open>UNIQUE(correlation_id, timestamp, suffix)\<close> holds.
\<close>

definition unique_rows :: "table \<Rightarrow> bool" where
  "unique_rows d \<longleftrightarrow>
     distinct (map row_id (rows d)) \<and>
     distinct (map identity (rows d)) \<and>
     list_all (\<lambda>r. row_id r < next_id d) (rows d)"

text \<open>Two entries with the same soft-dedup key.\<close>

definition same_soft_key :: "trace \<Rightarrow> trace \<Rightarrow> bool" where
  "same_soft_key tr tr' \<longleftrightarrow>
     source_id tr = source_id tr' \<and> correlation_id tr = correlation_id tr' \<and>
     endpoint tr = endpoint tr' \<and> direction tr = direction tr'"


section \<open>Example data\<close>

text \<open>The entry of the end-to-end scenario, and the state of a process that has just
  started on an empty table.\<close>

definition entry_c1 :: trace where
  "entry_c1 =
     \<lparr>source_id = ''WK'', correlation_id = ''c1'', timestamp = 1000, suffix = ''a'',
      direction = ''->'', operation = ''RPC'', endpoint = ''/foo'', data = None,
      hostname = ''unknown'', raw_line = None\<rparr>"



definition empty_table :: table where
  "empty_table = \<lparr>rows = [], next_id = 1\<rparr>"



definition initial_stats :: stats where
  "initial_stats =
     \<lparr>ingest_total = 0, ingest_duplicates = 0, queries_total = 0, recent_requests = 0,
      started_at = 0, ingest_deduped = None\<rparr>"

definition no_subscribers :: broadcast where
  "no_subscribers =
     \<lparr>subscribers = [], subscriber_timestamps = [], queues = (\<lambda>q. []), next_queue = 0\<rparr>"

definition initial_hub :: hub where
  "initial_hub =
     \<lparr>db = empty_table, stats = initial_stats, recent_rate_window = [],
      source_ingest_window = [], source_ingest_totals = [], bcast = no_subscribers\<rparr>"

section \<open>Properties of the controller\<close>

lemma foldl_delete_filter:
  "foldl (\<lambda>d k. AList.delete k d) al ks = filter (\<lambda>p. fst p \<notin> set ks) al"
proof (induction ks arbitrary: al)
  case Nil
  show ?case by simp
next
  case (Cons k ks)
  have "AList.delete k al = filter (\<lambda>p. fst p \<noteq> k) al"
    by (simp add: AList.delete_eq case_prod_unfold eq_commute)
  then show ?case using Cons.IH [of "AList.delete k al"]
    by (simp add: conj_commute)
qed

lemma tick_loop_keys:
  "tick_loop w now al = (items, changed, rm) \<Longrightarrow> map fst items = map fst al"
  by (induction al arbitrary: items changed rm)
     (auto split: prod.splits if_splits)

lemma tick_loop_remove_keys:
  "tick_loop w now al = (items, changed, rm) \<Longrightarrow> set rm \<subseteq> fst ` set al"
  by (induction al arbitrary: items changed rm)
     (auto split: prod.splits if_splits)

lemma tick_loop_unchanged:
  "tick_loop w now al = (items, False, rm) \<Longrightarrow> items = al \<and> rm = []"
  by (induction al arbitrary: items rm)
     (auto split: prod.splits if_splits)

lemma tick_loop_changed:
  "tick_loop w now al = (items, True, rm) \<Longrightarrow> rm \<noteq> [] \<or> items \<noteq> al"
proof (induction al arbitrary: items rm)
  case Nil
  then show ?case by simp
next
  case (Cons p al)
  obtain k e where p: "p = (k, e)" by (cases p)
  obtain items' ch' rm' where r: "tick_loop w now al = (items', ch', rm')"
    by (cases "tick_loop w now al")
  show ?case
  proof (cases "expires_at e > now \<or> (state e \<noteq> Hot \<and> state e \<noteq> Warm)")
    case True
    with Cons.prems p r have "ch' = True" "items = (k, e) # items'" "rm = rm'"
      by (auto split: if_splits)
    with Cons.IH [of items' rm'] r show ?thesis by auto
  next
    case False
    have upd: "e\<lparr>state := Warm, expires_at := now + of_int w\<rparr> \<noteq> e" if "state e = Hot"
    proof
      assume "e\<lparr>state := Warm, expires_at := now + of_int w\<rparr> = e"
      then have "state (e\<lparr>state := Warm, expires_at := now + of_int w\<rparr>) = state e"
        by simp
      with that show False by simp
    qed
    from False Cons.prems p r upd show ?thesis
      by (auto split: if_splits)
  qed
qed

lemma cooldown_tick_etag:
  "config_etag (cooldown_tick w now s) =
     (if adaptive_state (cooldown_tick w now s) = adaptive_state s
      then config_etag s else config_etag s + 1)"
proof -
  obtain items changed rm where r: "tick_loop w now (adaptive_state s) = (items, changed, rm)"
    by (cases "tick_loop w now (adaptive_state s)")
  let ?after = "filter (\<lambda>p. fst p \<notin> set rm) items"
  have after: "adaptive_state (cooldown_tick w now s) = ?after"
    by (simp add: cooldown_tick_def r foldl_delete_filter)
  have etag: "config_etag (cooldown_tick w now s) =
                (if changed then config_etag s + 1 else config_etag s)"
    by (simp add: cooldown_tick_def r)
  show ?thesis
  proof (cases changed)
    case False
    with r have "tick_loop w now (adaptive_state s) = (items, False, rm)" by simp
    from tick_loop_unchanged [OF this] have "items = adaptive_state s" "rm = []"
      by simp_all
    with after etag False show ?thesis by simp
  next
    case True
    have "?after \<noteq> adaptive_state s"
    proof (cases "rm = []")
      case True
      from r \<open>changed\<close> have "tick_loop w now (adaptive_state s) = (items, True, rm)"
        by simp
      from tick_loop_changed [OF this] True have "items \<noteq> adaptive_state s" by simp
      with True show ?thesis by simp
    next
      case False
      then obtain k where k: "k \<in> set rm" by (cases rm) auto
      with r have "k \<in> fst ` set items"
        using tick_loop_remove_keys [OF r] tick_loop_keys [OF r]
        by (metis list.set_map subsetD)
      then obtain p where "p \<in> set items" "fst p = k" by auto
      with k have "length ?after < length items"
        by (intro length_filter_less [of p]) auto
      moreover have "length items = length (adaptive_state s)"
        using tick_loop_keys [OF r] by (metis length_map)
      ultimately show ?thesis by auto
    qed
    with after etag True show ?thesis by simp
  qed
qed

lemma get_state_cong:
  "adaptive_state s' = adaptive_state s \<Longrightarrow> get_state s' c = get_state s c"
  by (simp add: get_state_def)
















text \<open>
  Claim C4. The config etag grows by exactly one across a cooldown tick that changes the
  state of at least one id, however many ids it moves, and is the same after a tick that
  leaves the state dictionary as it was; an explicit enable always adds one, and an
  explicit disable adds one whenever it changes the state of an id. In each case the
  etag after a change is strictly greater than before.
\<close>

theorem etag_monotone:
  "((\<exists>c. get_state (cooldown_tick w now s) c \<noteq> get_state s c) \<longrightarrow>
      config_etag (cooldown_tick w now s) = config_etag s + 1) \<and>
   (adaptive_state (cooldown_tick w now s) \<noteq> adaptive_state s \<longrightarrow>
      config_etag (cooldown_tick w now s) = config_etag s + 1) \<and>
   (adaptive_state (cooldown_tick w now s) = adaptive_state s \<longrightarrow>
      config_etag (cooldown_tick w now s) = config_etag s) \<and>
   config_etag (snd (tracing_enable h now c1 s)) = config_etag s + 1 \<and>
   ((\<exists>c. get_state (snd (tracing_disable c2 s)) c \<noteq> get_state s c) \<longrightarrow>
      config_etag (snd (tracing_disable c2 s)) = config_etag s + 1) \<and>
   config_etag s < config_etag s + 1"
proof -
  have tick: "(\<exists>c. get_state (cooldown_tick w now s) c \<noteq> get_state s c) \<longrightarrow>
      config_etag (cooldown_tick w now s) = config_etag s + 1"
    using cooldown_tick_etag [of w now s] get_state_cong [of "cooldown_tick w now s" s]
    by (auto split: if_splits)
  have dis: "(\<exists>c. get_state (snd (tracing_disable c2 s)) c \<noteq> get_state s c) \<longrightarrow>
      config_etag (snd (tracing_disable c2 s)) = config_etag s + 1"
    by (auto simp: tracing_disable_def Let_def)
  have en: "config_etag (snd (tracing_enable h now c1 s)) = config_etag s + 1"
    by (simp add: tracing_enable_def mark_hot_def Let_def)
  show ?thesis
    using tick dis en cooldown_tick_etag [of w now s] by (auto split: if_splits)
qed

theorem etag_monotone_witness:
  "get_state (cooldown_tick 1500 400
      \<lparr>adaptive_state =
         [(''a'', \<lparr>state = Hot, expires_at = 100, queried_at = 0\<rparr>),
          (''b'', \<lparr>state = Warm, expires_at = 200, queried_at = 0\<rparr>),
          (''c'', \<lparr>state = Hot, expires_at = 150, queried_at = 0\<rparr>)],
       config_etag = 7\<rparr>) ''a'' = Warm \<and>
   get_state (cooldown_tick 1500 400
      \<lparr>adaptive_state =
         [(''a'', \<lparr>state = Hot, expires_at = 100, queried_at = 0\<rparr>),
          (''b'', \<lparr>state = Warm, expires_at = 200, queried_at = 0\<rparr>),
          (''c'', \<lparr>state = Hot, expires_at = 150, queried_at = 0\<rparr>)],
       config_etag = 7\<rparr>) ''b'' = Cold \<and>
   get_state (cooldown_tick 1500 400
      \<lparr>adaptive_state =
         [(''a'', \<lparr>state = Hot, expires_at = 100, queried_at = 0\<rparr>),
          (''b'', \<lparr>state = Warm, expires_at = 200, queried_at = 0\<rparr>),
          (''c'', \<lparr>state = Hot, expires_at = 150, queried_at = 0\<rparr>)],
       config_etag = 7\<rparr>) ''c'' = Warm \<and>
   config_etag (cooldown_tick 1500 400
      \<lparr>adaptive_state =
         [(''a'', \<lparr>state = Hot, expires_at = 100, queried_at = 0\<rparr>),
          (''b'', \<lparr>state = Warm, expires_at = 200, queried_at = 0\<rparr>),
          (''c'', \<lparr>state = Hot, expires_at = 150, queried_at = 0\<rparr>)],
       config_etag = 7\<rparr>) = 8 \<and>
   config_etag (cooldown_tick 1500 50
      \<lparr>adaptive_state =
         [(''a'', \<lparr>state = Hot, expires_at = 100, queried_at = 0\<rparr>),
          (''b'', \<lparr>state = Warm, expires_at = 200, queried_at = 0\<rparr>),
          (''c'', \<lparr>state = Hot, expires_at = 150, queried_at = 0\<rparr>)],
       config_etag = 7\<rparr>) = 7 \<and>
   config_etag (snd (tracing_disable ''b''
      \<lparr>adaptive_state =
         [(''a'', \<lparr>state = Hot, expires_at = 100, queried_at = 0\<rparr>),
          (''b'', \<lparr>state = Warm, expires_at = 200, queried_at = 0\<rparr>),
          (''c'', \<lparr>state = Hot, expires_at = 150, queried_at = 0\<rparr>)],
       config_etag = 7\<rparr>)) = 8"
proof -
  let ?s = "\<lparr>adaptive_state =
         [(''a'', \<lparr>state = Hot, expires_at = 100, queried_at = 0\<rparr>),
          (''b'', \<lparr>state = Warm, expires_at = 200, queried_at = 0\<rparr>),
          (''c'', \<lparr>state = Hot, expires_at = 150, queried_at = 0\<rparr>)],
       config_etag = 7\<rparr>"
  have a: "get_state (cooldown_tick 1500 400 ?s) ''a'' = Warm"
    and b: "get_state (cooldown_tick 1500 400 ?s) ''b'' = Cold"
    and c: "get_state (cooldown_tick 1500 400 ?s) ''c'' = Warm"
    and before: "get_state ?s ''a'' = Hot" "get_state ?s ''b'' = Warm"
    by (simp_all add: get_state_def cooldown_tick_def AList.delete_eq)
  have same: "adaptive_state (cooldown_tick 1500 50 ?s) = adaptive_state ?s"
    by (simp add: cooldown_tick_def)
  have gone: "get_state (snd (tracing_disable ''b'' ?s)) ''b'' = Cold"
    by (simp add: tracing_disable_def get_state_def AList.delete_eq)
  from a before have ch: "\<exists>c. get_state (cooldown_tick 1500 400 ?s) c \<noteq> get_state ?s c"
    by (intro exI [of _ "''a''"]) simp
  from gone before
  have ch': "\<exists>c. get_state (snd (tracing_disable ''b'' ?s)) c \<noteq> get_state ?s c"
    by (intro exI [of _ "''b''"]) simp
  from ch etag_monotone [of 1500 400 ?s]
  have "config_etag (cooldown_tick 1500 400 ?s) = 8" by simp
  moreover from same etag_monotone [of 1500 50 ?s]
  have "config_etag (cooldown_tick 1500 50 ?s) = 7" by simp
  moreover from ch' etag_monotone [of _ _ ?s _ _ "''b''"]
  have "config_etag (snd (tracing_disable ''b'' ?s)) = 8" by simp
  ultimately show ?thesis using a b c by simp
qed

section \<open>Properties of the trace store\<close>

lemma same_identity_iff: "same_identity r r' \<longleftrightarrow> identity r = identity r'"
  by (auto simp: same_identity_def identity_def)










lemma new_row_simps:
  "identity (new_row rid c e) = identity e" "row_id (new_row rid c e) = rid"
  "created_at (new_row rid c e) = of_int c"
  "soft_match t e' (new_row rid c e) \<longleftrightarrow> same_soft_key e e' \<and> of_int c > t - 300"
  by (auto simp: new_row_def identity_def soft_match_def same_soft_key_def)










subsection \<open>The table keeps its constraints\<close>

text \<open>
  The premise on the table in the theorem on double submission holds for the empty table
  and after every call of \<^verbatim>\<open>insert_trace\<close>: an \<^verbatim>\<open>UPDATE\<close> that goes through leaves no
  two rows with the same identity triple.
\<close>

lemma unique_rows_empty: "unique_rows empty_table"
  by (simp add: unique_rows_def empty_table_def)

lemma sql_update_unique:
  assumes u: "unique_rows d" and ok: "sql_update t e (rows d) = Inr (rs', n)"
  shows "unique_rows (d\<lparr>rows := rs'\<rparr>)"
proof -
  let ?upd = "\<lambda>r. if soft_match t e r then r\<lparr>timestamp := timestamp e, created_at := t\<rparr> else r"
  from u have di: "distinct (map row_id (rows d))"
    and dk: "distinct (map identity (rows d))"
    and bound: "\<forall>r \<in> set (rows d). row_id r < next_id d"
    by (simp_all add: unique_rows_def list_all_iff)
  from di have dr: "distinct (rows d)" and inj_id: "inj_on row_id (set (rows d))"
    by (simp_all add: distinct_map)
  from dk have inj_k: "inj_on identity (set (rows d))"
    by (simp add: distinct_map)
  from ok have rs': "rs' = map ?upd (rows d)"
    by (auto simp: sql_update_def Let_def split: if_splits)
  from ok have no_conflict: "\<And>x r'. x \<in> set (rows d) \<Longrightarrow> r' \<in> set (map ?upd (rows d)) \<Longrightarrow>
              soft_match t e x \<Longrightarrow> row_id r' \<noteq> row_id x \<Longrightarrow>
              correlation_id r' = correlation_id x \<Longrightarrow> timestamp r' = timestamp e \<Longrightarrow>
              suffix r' = suffix x \<Longrightarrow> False"
    unfolding sql_update_def Let_def by (simp split: if_splits) blast
  have clash: False
    if x: "x \<in> set (rows d)" and y: "y \<in> set (rows d)" and ne: "x \<noteq> y"
      and mx: "soft_match t e x" and eq: "identity (?upd x) = identity (?upd y)" for x y
  proof -
    from ne x y inj_id have "row_id y \<noteq> row_id x" by (auto simp: inj_on_def)
    then have 1: "row_id (?upd y) \<noteq> row_id x" by simp
    have 2: "?upd y \<in> set (map ?upd (rows d))"
      unfolding set_map using y by (rule imageI)
    from eq mx have 3: "correlation_id (?upd y) = correlation_id x"
      "timestamp (?upd y) = timestamp e" "suffix (?upd y) = suffix x"
      by (simp_all add: identity_def)
    from no_conflict [OF x 2 mx 1 3] show False .
  qed
  have inj: "inj_on (\<lambda>r. identity (?upd r)) (set (rows d))"
  proof (rule inj_onI)
    fix x y assume x: "x \<in> set (rows d)" and y: "y \<in> set (rows d)"
      and eq: "identity (?upd x) = identity (?upd y)"
    show "x = y"
    proof (rule ccontr)
      assume ne: "x \<noteq> y"
      show False
      proof (cases "soft_match t e x")
        case True
        from clash [OF x y ne True eq] show False .
      next
        case False
        show False
        proof (cases "soft_match t e y")
          case True
          from ne have "y \<noteq> x" by simp
          from clash [OF y x this True eq [symmetric]] show False .
        next
          case ny: False
          with False eq have "identity x = identity y" by simp
          with inj_k x y ne show False by (auto simp: inj_on_def)
        qed
      qed
    qed
  qed
  with dr have "distinct (map (\<lambda>r. identity (?upd r)) (rows d))"
    by (simp add: distinct_map)
  then have "distinct (map identity rs')"
    by (simp add: rs' comp_def)
  moreover have "map row_id rs' = map row_id (rows d)"
    by (simp add: rs' comp_def cong: if_cong)
  moreover from bound have "\<forall>r \<in> set rs'. row_id r < next_id d"
    by (auto simp: rs')
  ultimately show ?thesis
    using di by (simp add: unique_rows_def list_all_iff)
qed


lemma sql_insert_unique:
  assumes "unique_rows d"
  shows "unique_rows (fst (sql_insert_or_ignore c e d))"
proof (cases "\<exists>r \<in> set (rows d). same_identity r e")
  case True
  with assms show ?thesis by (simp add: sql_insert_or_ignore_def)
next
  case False
  from assms have di: "distinct (map row_id (rows d))"
    and dk: "distinct (map identity (rows d))"
    and bound: "\<forall>r \<in> set (rows d). row_id r < next_id d"
    by (simp_all add: unique_rows_def list_all_iff)
  from False have "identity e \<notin> set (map identity (rows d))"
    by (auto simp: same_identity_iff)
  moreover from bound have "next_id d \<notin> set (map row_id (rows d))" by auto
  moreover from bound have "\<forall>r \<in> set (rows d). row_id r < next_id d + 1" by auto
  ultimately show ?thesis
    using False di dk
    by (simp add: sql_insert_or_ignore_def unique_rows_def list_all_iff new_row_simps)
qed

text \<open>Whatever is submitted, the table keeps its constraints.\<close>

lemma insert_trace_unique:
  assumes "unique_rows d"
  shows "unique_rows (fst (snd (insert_trace t c e d st)))"
proof (cases "sql_update t e (rows d)")
  case (Inl err)
  with assms show ?thesis by (simp add: insert_trace_def)
next
  case (Inr p)
  obtain rs' n where p: "p = (rs', n)" by (cases p)
  from sql_update_unique [OF assms Inr [unfolded p]]
  have u: "unique_rows (d\<lparr>rows := rs'\<rparr>)" .
  show ?thesis
  proof (cases "n > 0")
    case True
    with u Inr p show ?thesis by (simp add: insert_trace_def)
  next
    case False
    from sql_insert_unique [OF u, of c e] False Inr p show ?thesis
      by (auto simp: insert_trace_def split: prod.splits)
  qed
qed

section \<open>Properties of the broadcast\<close>

lemma fan_out_spec:
  "distinct bucket \<Longrightarrow>
   fan_out tr bucket qs =
     ((\<lambda>q. if q \<in> set bucket \<and> length (qs q) < maxsize then qs q @ [tr] else qs q),
      filter (\<lambda>q. length (qs q) \<ge> maxsize) bucket)"
proof (induction bucket arbitrary: qs)
  case Nil
  show ?case by simp
next
  case (Cons q rest)
  then have d: "distinct rest" and nq: "q \<notin> set rest" by simp_all
  show ?case
  proof (cases "length (qs q) \<ge> maxsize")
    case True
    with Cons.IH [OF d, of qs] show ?thesis by (auto simp: fun_eq_iff)
  next
    case False
    let ?qs = "qs(q := qs q @ [tr])"
    have same: "filter (\<lambda>x. length (?qs x) \<ge> maxsize) rest
                  = filter (\<lambda>x. length (qs x) \<ge> maxsize) rest"
      using nq by (intro filter_cong) auto
    have heap: "(\<lambda>x. if x \<in> set rest \<and> length (?qs x) < maxsize then ?qs x @ [tr] else ?qs x)
                  = (\<lambda>x. if x \<in> set (q # rest) \<and> length (qs x) < maxsize
                         then qs x @ [tr] else qs x)"
      using nq False by (auto simp: fun_eq_iff)
    have "fan_out tr (q # rest) qs = fan_out tr rest ?qs"
      using False by simp
    also have "\<dots> = ((\<lambda>x. if x \<in> set rest \<and> length (?qs x) < maxsize
                            then ?qs x @ [tr] else ?qs x),
                       filter (\<lambda>x. length (?qs x) \<ge> maxsize) rest)"
      by (rule Cons.IH [OF d])
    finally show ?thesis
      unfolding same heap using False by simp
  qed
qed

lemma foldl_remove1_filter:
  "distinct l \<Longrightarrow> foldl (\<lambda>l q. remove1 q l) l ds = filter (\<lambda>q. q \<notin> set ds) l"
proof (induction ds arbitrary: l)
  case Nil
  show ?case by simp
next
  case (Cons d ds)
  from Cons.prems have "remove1 d l = filter (\<lambda>q. q \<noteq> d) l"
    by (simp add: distinct_remove1_removeAll removeAll_filter_not_eq eq_commute)
  with Cons.IH [of "remove1 d l"] Cons.prems show ?case
    by (simp add: conj_commute)
qed

lemma prune_dead:
  assumes "distinct bucket"
  shows "foldl (\<lambda>l q. remove1 q l) bucket (filter (\<lambda>q. length (qs q) \<ge> maxsize) bucket)
           = filter (\<lambda>q. length (qs q) < maxsize) bucket"
  unfolding foldl_remove1_filter [OF assms]
  by (intro filter_cong) auto

lemma listeners_delete:
  "listeners (b\<lparr>subscribers := AList.delete c (subscribers b), subscriber_timestamps := ts, queues := qs\<rparr>) c' =
     (if c' = c then [] else listeners b c')"
  by (simp add: listeners_def delete_conv')

lemma listeners_update:
  "listeners (b\<lparr>subscribers := AList.update c l (subscribers b), queues := qs\<rparr>) c' =
     (if c' = c then l else listeners b c')"
  by (simp add: listeners_def update_conv')

lemma notify_listeners:
  assumes "distinct (listeners b (correlation_id tr))"
  shows "listeners (notify_subscribers tr b) c =
           (if c = correlation_id tr
            then filter (\<lambda>q. length (queues b q) < maxsize) (listeners b c)
            else listeners b c)"
proof (cases "map_of (subscribers b) (correlation_id tr)")
  case None
  then show ?thesis by (simp add: notify_subscribers_def listeners_def)
next
  case (Some bucket)
  with assms have d: "distinct bucket" by (simp add: listeners_def)
  have l: "listeners b (correlation_id tr) = bucket" using Some by (simp add: listeners_def)
  show ?thesis
    using Some l
    by (simp add: notify_subscribers_def Let_def fan_out_spec [OF d] prune_dead [OF d]
          listeners_delete listeners_update)
qed

lemma notify_queues:
  assumes "distinct (listeners b (correlation_id tr))"
  shows "queues (notify_subscribers tr b) q =
           (if q \<in> set (listeners b (correlation_id tr)) \<and> length (queues b q) < maxsize
            then queues b q @ [tr] else queues b q)"
proof (cases "map_of (subscribers b) (correlation_id tr)")
  case None
  then show ?thesis by (simp add: notify_subscribers_def listeners_def)
next
  case (Some bucket)
  with assms have d: "distinct bucket" by (simp add: listeners_def)
  have l: "listeners b (correlation_id tr) = bucket" using Some by (simp add: listeners_def)
  show ?thesis
    using Some l
    by (simp add: notify_subscribers_def Let_def fan_out_spec [OF d] prune_dead [OF d])
qed

lemma registered_once_distinct:
  "registered_once b \<Longrightarrow> distinct (listeners b c)"
proof -
  assume r: "registered_once b"
  show ?thesis
  proof (cases "map_of (subscribers b) c")
    case None
    then show ?thesis by (simp add: listeners_def)
  next
    case (Some l)
    then have "(c, l) \<in> set (subscribers b)" by (rule map_of_SomeD)
    then have "l \<in> set (map snd (subscribers b))" by force
    with r have "distinct l" by (auto simp: registered_once_def distinct_concat_iff)
    with Some show ?thesis by (simp add: listeners_def)
  qed
qed

lemma buckets_disjoint:
  "distinct (map fst al) \<Longrightarrow> distinct (concat (map snd al)) \<Longrightarrow>
   (c, l) \<in> set al \<Longrightarrow> (c', l') \<in> set al \<Longrightarrow> c \<noteq> c' \<Longrightarrow>
   q \<in> set l \<Longrightarrow> q \<notin> set l'"
  by (induction al) force+

lemma registered_once_disjoint:
  assumes r: "registered_once b" and ne: "c \<noteq> c'"
    and q: "q \<in> set (listeners b c)"
  shows "q \<notin> set (listeners b c')"
proof (cases "map_of (subscribers b) c'")
  case None
  then show ?thesis by (simp add: listeners_def)
next
  case (Some l')
  from q obtain l where l: "map_of (subscribers b) c = Some l" "q \<in> set l"
    by (cases "map_of (subscribers b) c") (simp_all add: listeners_def)
  from l Some have m: "(c, l) \<in> set (subscribers b)" "(c', l') \<in> set (subscribers b)"
    by (auto dest: map_of_SomeD)
  from r have dk: "distinct (map fst (subscribers b))"
    and dc: "distinct (concat (map snd (subscribers b)))"
    by (simp_all add: registered_once_def)
  from buckets_disjoint [OF dk dc m ne l(2)] Some show ?thesis
    by (simp add: listeners_def)
qed


text \<open>
  Claim C8. When every queue is registered at most once, a notify for an entry delivers
  it to every listener of the entry's correlation id whose queue has room, and keeps
  that listener registered; it leaves the buckets and the queues of every other
  correlation id as they were; and a listener whose queue is full gets nothing and is
  gone from the bucket afterwards, which then holds exactly the listeners that had room.
\<close>

theorem broadcast_fan_out:
  assumes "registered_once b"
  shows "let c = correlation_id tr; b' = notify_subscribers tr b in
    (\<forall>q \<in> set (listeners b c). length (queues b q) < maxsize \<longrightarrow>
        queues b' q = queues b q @ [tr] \<and> q \<in> set (listeners b' c)) \<and>
    (c' \<noteq> c \<longrightarrow> listeners b' c' = listeners b c' \<and>
        (\<forall>q \<in> set (listeners b c'). queues b' q = queues b q)) \<and>
    (\<forall>q \<in> set (listeners b c). maxsize \<le> length (queues b q) \<longrightarrow>
        q \<notin> set (listeners b' c) \<and> queues b' q = queues b q) \<and>
    listeners b' c = filter (\<lambda>q. length (queues b q) < maxsize) (listeners b c)"
proof -
  let ?c = "correlation_id tr"
  let ?b' = "notify_subscribers tr b"
  have d: "distinct (listeners b ?c)"
    using assms by (rule registered_once_distinct)
  have live: "\<forall>q \<in> set (listeners b ?c). length (queues b q) < maxsize \<longrightarrow>
        queues ?b' q = queues b q @ [tr] \<and> q \<in> set (listeners ?b' ?c)"
    by (simp add: notify_queues [OF d] notify_listeners [OF d])
  have other: "c' \<noteq> ?c \<longrightarrow> listeners ?b' c' = listeners b c' \<and>
        (\<forall>q \<in> set (listeners b c'). queues ?b' q = queues b q)"
  proof (intro impI conjI ballI)
    assume ne: "c' \<noteq> ?c"
    then show "listeners ?b' c' = listeners b c'"
      by (simp add: notify_listeners [OF d])
    fix q assume "q \<in> set (listeners b c')"
    from registered_once_disjoint [OF assms ne this]
    show "queues ?b' q = queues b q"
      by (simp add: notify_queues [OF d])
  qed
  have full: "\<forall>q \<in> set (listeners b ?c). maxsize \<le> length (queues b q) \<longrightarrow>
        q \<notin> set (listeners ?b' ?c) \<and> queues ?b' q = queues b q"
    by (simp add: notify_queues [OF d] notify_listeners [OF d])
  have "listeners ?b' ?c = filter (\<lambda>q. length (queues b q) < maxsize) (listeners b ?c)"
    by (simp add: notify_listeners [OF d])
  with live other full show ?thesis
    unfolding Let_def by blast
qed

theorem broadcast_fan_out_witness:
  "queues (notify_subscribers entry_c1
      \<lparr>subscribers = [(''c1'', [0, 1]), (''c2'', [2])],
       subscriber_timestamps = [(''c1'', 5), (''c2'', 6)],
       queues = (\<lambda>q. if q = 1 then replicate 100 entry_c1 else []),
       next_queue = 3\<rparr>) 0 = [entry_c1] \<and>
   queues (notify_subscribers entry_c1
      \<lparr>subscribers = [(''c1'', [0, 1]), (''c2'', [2])],
       subscriber_timestamps = [(''c1'', 5), (''c2'', 6)],
       queues = (\<lambda>q. if q = 1 then replicate 100 entry_c1 else []),
       next_queue = 3\<rparr>) 1 = replicate 100 entry_c1 \<and>
   queues (notify_subscribers entry_c1
      \<lparr>subscribers = [(''c1'', [0, 1]), (''c2'', [2])],
       subscriber_timestamps = [(''c1'', 5), (''c2'', 6)],
       queues = (\<lambda>q. if q = 1 then replicate 100 entry_c1 else []),
       next_queue = 3\<rparr>) 2 = [] \<and>
   listeners (notify_subscribers entry_c1
      \<lparr>subscribers = [(''c1'', [0, 1]), (''c2'', [2])],
       subscriber_timestamps = [(''c1'', 5), (''c2'', 6)],
       queues = (\<lambda>q. if q = 1 then replicate 100 entry_c1 else []),
       next_queue = 3\<rparr>) ''c1'' = [0]"
proof -
  let ?b = "\<lparr>subscribers = [(''c1'', [0, 1]), (''c2'', [2])],
       subscriber_timestamps = [(''c1'', 5), (''c2'', 6)],
       queues = (\<lambda>q. if q = 1 then replicate 100 entry_c1 else []),
       next_queue = 3\<rparr>"
  have r: "registered_once ?b" by (simp add: registered_once_def)
  have c: "correlation_id entry_c1 = ''c1''" by (simp add: entry_c1_def)
  have l: "listeners ?b ''c1'' = [0, 1]" "listeners ?b ''c2'' = [2]"
    by (simp_all add: listeners_def)
  from broadcast_fan_out [OF r, of entry_c1 "''c2''"] show ?thesis
    unfolding Let_def c l by (simp add: maxsize_def)
qed

text \<open>
  Claim C5 fails on the code: \<^verbatim>\<open>unsubscribe\<close> never touches
  \<^verbatim>\<open>_subscriber_timestamps\<close>. After one subscribe and the matching unsubscribe on a
  fresh process the bucket of the id is gone and its activity timestamp is still there.
\<close>

theorem unsubscribe_leaves_timestamp:
  "subscriber_timestamps (unsubscribe c q b) = subscriber_timestamps b \<and>
   subscribers (unsubscribe ''c1'' 0 (snd (subscribe 100 ''c1'' no_subscribers))) = [] \<and>
   subscriber_timestamps (unsubscribe ''c1'' 0 (snd (subscribe 100 ''c1'' no_subscribers)))
     = [(''c1'', 100)] \<and>
   fst (subscribe 100 ''c1'' no_subscribers) = 0"
  by (simp add: unsubscribe_def subscribe_def no_subscribers_def Let_def AList.delete_eq
        split: option.splits)

subsection \<open>Every queue is registered at most once\<close>

text \<open>
  The premise of the fan-out theorem holds on a fresh process and is kept by
  \<^verbatim>\<open>subscribe\<close>, \<^verbatim>\<open>unsubscribe\<close> and \<^verbatim>\<open>notify_subscribers\<close>, together with the fact
  that registered queues were made earlier than the next one. The bucket of one id is
  looked at apart from the buckets of the others.
\<close>

lemma buckets_split:
  assumes "distinct (map fst al)"
  shows "set (concat (map snd al)) =
           set (case map_of al c of None \<Rightarrow> [] | Some l \<Rightarrow> l) \<union>
           set (concat (map snd (AList.delete c al)))"
    and "distinct (concat (map snd al)) \<longleftrightarrow>
           distinct (case map_of al c of None \<Rightarrow> [] | Some l \<Rightarrow> l) \<and>
           distinct (concat (map snd (AList.delete c al))) \<and>
           set (case map_of al c of None \<Rightarrow> [] | Some l \<Rightarrow> l) \<inter>
             set (concat (map snd (AList.delete c al))) = {}"
  using assms
proof (induction al)
  case Nil
  { case 1 show ?case by simp }
  { case 2 show ?case by simp }
next
  case (Cons p al)
  obtain k l0 where p: "p = (k, l0)" by (cases p)
  { case 1
    show ?case
    proof (cases "k = c")
      case True
      with 1 p have "c \<notin> fst ` set al" by auto
      then show ?thesis using True p by simp
    next
      case False
      with 1 p Cons.IH(1) show ?thesis by (auto simp: AList.delete_eq)
    qed }
  { case 2
    show ?case
    proof (cases "k = c")
      case True
      with 2 p have "c \<notin> fst ` set al" by auto
      then show ?thesis using True p by auto
    next
      case False
      from 2 p have d: "distinct (map fst al)" by simp
      from Cons.IH(1) [OF d] Cons.IH(2) [OF d] False p show ?thesis
        by (auto simp: AList.delete_eq)
    qed }
qed


lemma replace_bucket:
  assumes dk: "distinct (map fst al)" and dc: "distinct (concat (map snd al))"
    and l: "distinct l" and disj: "set l \<inter> set (concat (map snd (AList.delete c al))) = {}"
  shows "distinct (map fst (AList.update c l al))"
    and "distinct (concat (map snd (AList.update c l al)))"
    and "set (concat (map snd (AList.update c l al))) =
           set l \<union> set (concat (map snd (AList.delete c al)))"
proof -
  show dk': "distinct (map fst (AList.update c l al))"
    using dk by (rule distinct_update)
  have same: "AList.delete c (AList.update c l al) = AList.delete c al"
    by (rule delete_update_same)
  have m: "map_of (AList.update c l al) c = Some l"
    by (simp add: update_conv')
  from buckets_split(2) [OF dk, of c] dc
  have "distinct (concat (map snd (AList.delete c al)))" by simp
  with l disj show "distinct (concat (map snd (AList.update c l al)))"
    unfolding buckets_split(2) [OF dk', of c] same m by simp
  show "set (concat (map snd (AList.update c l al))) =
           set l \<union> set (concat (map snd (AList.delete c al)))"
    unfolding buckets_split(1) [OF dk', of c] same m by simp
qed

lemma remove_bucket:
  assumes dk: "distinct (map fst al)" and dc: "distinct (concat (map snd al))"
  shows "distinct (map fst (AList.delete c al))"
    and "distinct (concat (map snd (AList.delete c al)))"
    and "set (concat (map snd (AList.delete c al))) \<subseteq> set (concat (map snd al))"
proof -
  show "distinct (map fst (AList.delete c al))"
    using dk by (rule distinct_delete)
  from buckets_split(2) [OF dk, of c] dc
  show "distinct (concat (map snd (AList.delete c al)))" by simp
  from buckets_split(1) [OF dk, of c]
  show "set (concat (map snd (AList.delete c al))) \<subseteq> set (concat (map snd al))" by auto
qed

text \<open>Replacing the bucket of an id by a part of itself, or dropping it when that part
  is empty, as \<^verbatim>\<open>unsubscribe\<close> and \<^verbatim>\<open>notify_subscribers\<close> do.\<close>

lemma shrink_bucket:
  assumes dk: "distinct (map fst al)" and dc: "distinct (concat (map snd al))"
    and m: "map_of al c = Some bucket"
    and l: "distinct l" "set l \<subseteq> set bucket"
    and al': "al' = (if l = [] then AList.delete c al else AList.update c l al)"
  shows "distinct (map fst al')"
    and "distinct (concat (map snd al'))"
    and "set (concat (map snd al')) \<subseteq> set (concat (map snd al))"
proof -
  from buckets_split(2) [OF dk, of c] dc m
  have "set bucket \<inter> set (concat (map snd (AList.delete c al))) = {}" by simp
  with l(2) have disj: "set l \<inter> set (concat (map snd (AList.delete c al))) = {}" by auto
  note rep = replace_bucket [OF dk dc l(1) disj]
  note rem = remove_bucket [OF dk dc, of c]
  from rep(1) rem(1) show "distinct (map fst al')" by (simp add: al')
  from rep(2) rem(2) show "distinct (concat (map snd al'))" by (simp add: al')
  from buckets_split(1) [OF dk, of c] m l(2) rep(3) rem(3)
  show "set (concat (map snd al')) \<subseteq> set (concat (map snd al))"
    by (auto simp: al')
qed

lemma fresh_queues_initial: "fresh_queues no_subscribers"
  by (simp add: fresh_queues_def registered_once_def no_subscribers_def)

lemma fresh_queues_not_registered:
  assumes "fresh_queues b"
  shows "next_queue b \<notin> set (listeners b c)"
proof
  assume q: "next_queue b \<in> set (listeners b c)"
  from assms have dk: "distinct (map fst (subscribers b))"
    and below: "\<forall>q \<in> set (concat (map snd (subscribers b))). q < next_queue b"
    by (simp_all add: fresh_queues_def registered_once_def list_all_iff)
  from q buckets_split(1) [OF dk, of c]
  have "next_queue b \<in> set (concat (map snd (subscribers b)))"
    by (simp add: listeners_def)
  with below show False by auto
qed

lemma fresh_queues_subscribe:
  assumes "fresh_queues b"
  shows "fresh_queues (snd (subscribe now c b))"
proof -
  let ?al = "subscribers b"
  let ?bucket = "case map_of ?al c of None \<Rightarrow> [] | Some l \<Rightarrow> l"
  let ?q = "next_queue b"
  from assms have dk: "distinct (map fst ?al)"
    and dc: "distinct (concat (map snd ?al))"
    and below: "\<forall>q \<in> set (concat (map snd ?al)). q < ?q"
    by (simp_all add: fresh_queues_def registered_once_def list_all_iff)
  note split = buckets_split [OF dk, of c]
  from split(1) below have nq: "?q \<notin> set ?bucket"
    and nq': "?q \<notin> set (concat (map snd (AList.delete c ?al)))"
    by auto
  from split(2) dc nq have l: "distinct (?bucket @ [?q])" by simp
  from split(2) dc nq' have disj:
    "set (?bucket @ [?q]) \<inter> set (concat (map snd (AList.delete c ?al))) = {}" by auto
  note rep = replace_bucket [OF dk dc l disj]
  have "\<forall>q \<in> set (concat (map snd (AList.update c (?bucket @ [?q]) ?al))). q < ?q + 1"
  proof
    fix x assume "x \<in> set (concat (map snd (AList.update c (?bucket @ [?q]) ?al)))"
    then have "x = ?q \<or> x \<in> set ?bucket \<union> set (concat (map snd (AList.delete c ?al)))"
      unfolding rep(3) by auto
    with split(1) have "x = ?q \<or> x \<in> set (concat (map snd ?al))" by blast
    then show "x < ?q + 1"
    proof
      assume "x = ?q" then show ?thesis by simp
    next
      assume "x \<in> set (concat (map snd ?al))"
      with below have "x < ?q" by (rule bspec)
      then show ?thesis by simp
    qed
  qed
  with rep(1,2) show ?thesis
    by (simp add: fresh_queues_def registered_once_def list_all_iff subscribe_def Let_def)
qed

lemma fresh_queues_unsubscribe:
  assumes "fresh_queues b"
  shows "fresh_queues (unsubscribe c q b)"
proof (cases "map_of (subscribers b) c")
  case None
  with assms show ?thesis by (simp add: unsubscribe_def)
next
  case (Some bucket)
  from assms have dk: "distinct (map fst (subscribers b))"
    and dc: "distinct (concat (map snd (subscribers b)))"
    and below: "\<forall>q \<in> set (concat (map snd (subscribers b))). q < next_queue b"
    by (simp_all add: fresh_queues_def registered_once_def list_all_iff)
  from buckets_split(2) [OF dk, of c] dc Some have db: "distinct bucket" by simp
  show ?thesis
  proof (cases "q \<in> set bucket")
    case False
    with Some assms show ?thesis by (simp add: unsubscribe_def)
  next
    case True
    define al' where "al' = (if remove1 q bucket = [] then AList.delete c (subscribers b)
                             else AList.update c (remove1 q bucket) (subscribers b))"
    from db have "distinct (remove1 q bucket)" "set (remove1 q bucket) \<subseteq> set bucket"
      by (auto simp: set_remove1_subset)
    note sh = shrink_bucket [OF dk dc Some this al'_def]
    have "subscribers (unsubscribe c q b) = al'"
      and "next_queue (unsubscribe c q b) = next_queue b"
      using Some True by (simp_all add: unsubscribe_def al'_def Let_def)
    with sh below show ?thesis
      by (auto simp: fresh_queues_def registered_once_def list_all_iff)
  qed
qed

lemma fresh_queues_notify:
  assumes "fresh_queues b"
  shows "fresh_queues (notify_subscribers tr b)"
proof (cases "map_of (subscribers b) (correlation_id tr)")
  case None
  with assms show ?thesis by (simp add: notify_subscribers_def)
next
  case (Some bucket)
  let ?c = "correlation_id tr"
  from assms have dk: "distinct (map fst (subscribers b))"
    and dc: "distinct (concat (map snd (subscribers b)))"
    and below: "\<forall>q \<in> set (concat (map snd (subscribers b))). q < next_queue b"
    by (simp_all add: fresh_queues_def registered_once_def list_all_iff)
  from buckets_split(2) [OF dk, of ?c] dc Some have db: "distinct bucket" by simp
  let ?l = "filter (\<lambda>q. length (queues b q) < maxsize) bucket"
  define al' where "al' = (if ?l = [] then AList.delete ?c (subscribers b)
                           else AList.update ?c ?l (subscribers b))"
  from db have "distinct ?l" "set ?l \<subseteq> set bucket" by auto
  note sh = shrink_bucket [OF dk dc Some this al'_def]
  have "subscribers (notify_subscribers tr b) = al'"
    and "next_queue (notify_subscribers tr b) = next_queue b"
    using Some
    by (simp_all add: notify_subscribers_def al'_def Let_def fan_out_spec [OF db]
          prune_dead [OF db])
  with sh below show ?thesis
    by (auto simp: fresh_queues_def registered_once_def list_all_iff)
qed

section \<open>Properties of the handlers\<close>



text \<open>
  Claim C6, as the code has it. The handler records the request before it tests the
  limit, so a request rejected with 429 has appended its time to the rate window and
  added one to \<^verbatim>\<open>recent_requests\<close>; the table and every other part of the state are
  as they were.
\<close>

theorem rejected_recent_mutates:
  assumes "fst (get_recent_traces like now limit since_id source s) = Inl TooManyRequests"
  shows "snd (get_recent_traces like now limit since_id source s) =
     s\<lparr>recent_rate_window := recent_rate_window s @ [now],
       stats := (stats s)\<lparr>recent_requests := recent_requests (stats s) + 1\<rparr>\<rparr>"
  using assms by (simp add: get_recent_traces_def Let_def split: if_splits)

theorem rejected_recent_mutates_witness:
  "fst (get_recent_traces (\<lambda>p v. False) 1 200 None None
      (initial_hub\<lparr>recent_rate_window := replicate 30 0\<rparr>)) = Inl TooManyRequests \<and>
   recent_rate_window (snd (get_recent_traces (\<lambda>p v. False) 1 200 None None
      (initial_hub\<lparr>recent_rate_window := replicate 30 0\<rparr>))) = replicate 30 0 @ [1] \<and>
   db (snd (get_recent_traces (\<lambda>p v. False) 1 200 None None
      (initial_hub\<lparr>recent_rate_window := replicate 30 0\<rparr>))) = empty_table"
proof -
  let ?s = "initial_hub\<lparr>recent_rate_window := replicate 30 0\<rparr>"
  have rej: "fst (get_recent_traces (\<lambda>p v. False) 1 200 None None ?s) = Inl TooManyRequests"
    by (simp add: get_recent_traces_def Let_def)
  from rejected_recent_mutates [OF rej] rej show ?thesis
    by (simp add: initial_hub_def)
qed

text \<open>
  With thirty requests recorded at time 0, a request at time 1 is rejected, and the
  rate window and the request counter are not as they were before it.
\<close>

theorem rejected_recent_counterexample:
  "fst (get_recent_traces (\<lambda>p v. False) 1 200 None None
      (initial_hub\<lparr>recent_rate_window := replicate 30 0\<rparr>)) = Inl TooManyRequests \<and>
   recent_rate_window (snd (get_recent_traces (\<lambda>p v. False) 1 200 None None
      (initial_hub\<lparr>recent_rate_window := replicate 30 0\<rparr>)))
     \<noteq> recent_rate_window (initial_hub\<lparr>recent_rate_window := replicate 30 0\<rparr>) \<and>
   recent_requests (stats (snd (get_recent_traces (\<lambda>p v. False) 1 200 None None
      (initial_hub\<lparr>recent_rate_window := replicate 30 0\<rparr>))))
     \<noteq> recent_requests (stats (initial_hub\<lparr>recent_rate_window := replicate 30 0\<rparr>))"
  by (simp add: get_recent_traces_def Let_def initial_hub_def initial_stats_def)

lemma insert_trace_counters:
  "insert_trace now db_now tr d st = (ins, d', st') \<Longrightarrow>
   ingest_total st' = ingest_total st \<and> ingest_duplicates st' = ingest_duplicates st \<and>
   queries_total st' = queries_total st \<and> recent_requests st' = recent_requests st"
  by (auto simp: insert_trace_def split: sum.splits prod.splits if_splits)

text \<open>
  Claim C10. The single-entry ingest leaves the per-source ingest window, the per-source
  totals and the counters \<^verbatim>\<open>ingest_total\<close> and \<^verbatim>\<open>ingest_duplicates\<close> as they were,
  whatever the entry, the state and the outcome of the authentication. The batch
  ingest of the same entry, once authenticated, appends its time to the window of the
  entry's source, adds one to the source's total, and adds one to the sum of the two
  counters.
\<close>

theorem single_ingest_frame:
  "(let s' = snd (ingest_single_trace secret hdr now db_now tr s) in
      source_ingest_window s' = source_ingest_window s \<and>
      source_ingest_totals s' = source_ingest_totals s \<and>
      ingest_total (stats s') = ingest_total (stats s) \<and>
      ingest_duplicates (stats s') = ingest_duplicates (stats s)) \<and>
   (verify_secret secret hdr = Inr True \<longrightarrow>
      (let s' = snd (ingest_traces secret hdr now [(tr, t, db_t)] s);
           sid = source_id tr in
       map_of (source_ingest_window s') sid =
         Some ((case map_of (source_ingest_window s) sid of None \<Rightarrow> [] | Some w \<Rightarrow> w) @ [now]) \<and>
       map_of (source_ingest_totals s') sid =
         Some ((case map_of (source_ingest_totals s) sid of None \<Rightarrow> 0 | Some n \<Rightarrow> n) + 1) \<and>
       ingest_total (stats s') + ingest_duplicates (stats s') =
         ingest_total (stats s) + ingest_duplicates (stats s) + 1))"
proof -
  obtain ins d' st' where i: "insert_trace now db_now tr (db s) (stats s) = (ins, d', st')"
    by (cases "insert_trace now db_now tr (db s) (stats s)")
  obtain ins2 d2 st2 where i2: "insert_trace t db_t tr (db s) (stats s) = (ins2, d2, st2)"
    by (cases "insert_trace t db_t tr (db s) (stats s)")
  have single: "let s' = snd (ingest_single_trace secret hdr now db_now tr s) in
      source_ingest_window s' = source_ingest_window s \<and>
      source_ingest_totals s' = source_ingest_totals s \<and>
      ingest_total (stats s') = ingest_total (stats s) \<and>
      ingest_duplicates (stats s') = ingest_duplicates (stats s)"
    using insert_trace_counters [OF i]
    by (simp add: ingest_single_trace_def i Let_def split: sum.splits)
  have batch: "verify_secret secret hdr = Inr True \<longrightarrow>
      (let s' = snd (ingest_traces secret hdr now [(tr, t, db_t)] s);
           sid = source_id tr in
       map_of (source_ingest_window s') sid =
         Some ((case map_of (source_ingest_window s) sid of None \<Rightarrow> [] | Some w \<Rightarrow> w) @ [now]) \<and>
       map_of (source_ingest_totals s') sid =
         Some ((case map_of (source_ingest_totals s) sid of None \<Rightarrow> 0 | Some n \<Rightarrow> n) + 1) \<and>
       ingest_total (stats s') + ingest_duplicates (stats s') =
         ingest_total (stats s) + ingest_duplicates (stats s) + 1)"
    using insert_trace_counters [OF i2]
    by (simp add: ingest_traces_def i2 Let_def update_conv')
  from single batch show ?thesis by blast
qed


theorem single_ingest_frame_witness:
  "source_ingest_window (snd (ingest_single_trace [] None 10 10 entry_c1 initial_hub)) = [] \<and>
   source_ingest_totals (snd (ingest_single_trace [] None 10 10 entry_c1 initial_hub)) = [] \<and>
   ingest_total (stats (snd (ingest_single_trace [] None 10 10 entry_c1 initial_hub))) = 0 \<and>
   ingest_duplicates (stats (snd (ingest_single_trace [] None 10 10 entry_c1 initial_hub)))
     = 0 \<and>
   map_of (source_ingest_window
      (snd (ingest_traces [] None 10 [(entry_c1, 10, 10)] initial_hub))) ''WK'' = Some [10] \<and>
   map_of (source_ingest_totals
      (snd (ingest_traces [] None 10 [(entry_c1, 10, 10)] initial_hub))) ''WK'' = Some 1 \<and>
   ingest_total (stats (snd (ingest_traces [] None 10 [(entry_c1, 10, 10)] initial_hub))) +
   ingest_duplicates (stats (snd (ingest_traces [] None 10 [(entry_c1, 10, 10)] initial_hub)))
     = 1"
proof -
  have ok: "verify_secret [] None = Inr True" by (simp add: verify_secret_def)
  have src: "source_id entry_c1 = ''WK''" by (simp add: entry_c1_def)
  from single_ingest_frame [of "[]" None 10 10 entry_c1 initial_hub 10 10] ok
  show ?thesis
    unfolding Let_def src
    by (simp add: initial_hub_def initial_stats_def)
qed






section \<open>Properties of the live stream\<close>

lemma stream_loop_no_marker: "TimeoutMarker \<notin> set (fst (stream_loop deadline script))"
  by (induction script) (auto split: round.splits prod.splits if_splits)

lemma stream_loop_left:
  "\<exists>p \<in> set script. deadline \<le> fst p \<or> snd p = Fault \<or> snd p = Disconnect \<Longrightarrow>
   snd (stream_loop deadline script) \<noteq> None"
proof (induction script)
  case Nil
  then show ?case by simp
next
  case (Cons p script)
  obtain t r where p: "p = (t, r)" by (cases p)
  show ?case
  proof (cases "deadline \<le> t \<or> r = Fault \<or> r = Disconnect")
    case True
    then show ?thesis by (auto simp: p)
  next
    case False
    with Cons.prems p
    have "\<exists>p \<in> set script. deadline \<le> fst p \<or> snd p = Fault \<or> snd p = Disconnect"
      by auto
    from Cons.IH [OF this] False show ?thesis
      by (cases r) (auto simp: p split: prod.splits)
  qed
qed

lemma subscribe_listeners:
  "listeners (snd (subscribe now c b)) c' =
     (if c' = c then listeners b c @ [next_queue b] else listeners b c')"
  by (simp add: subscribe_def Let_def listeners_def update_conv')

lemma unsubscribe_subscribe:
  assumes "next_queue b \<notin> set (listeners b c)"
  shows "listeners (unsubscribe c (next_queue b) (snd (subscribe now c b))) c' = listeners b c'"
proof -
  let ?b1 = "snd (subscribe now c b)"
  let ?q = "next_queue b"
  define bucket where "bucket = (case map_of (subscribers b) c of None \<Rightarrow> [] | Some l \<Rightarrow> l)"
  from assms have fresh: "?q \<notin> set bucket"
    by (simp add: listeners_def bucket_def)
  have m: "map_of (subscribers ?b1) c = Some (bucket @ [?q])"
    by (simp add: subscribe_def Let_def bucket_def update_conv')
  have r: "remove1 ?q (bucket @ [?q]) = bucket"
    using fresh by (simp add: remove1_append)
  have other: "map_of (subscribers ?b1) c' = map_of (subscribers b) c'" if "c' \<noteq> c"
    using that by (simp add: subscribe_def Let_def update_conv')
  have after: "subscribers (unsubscribe c ?q ?b1) =
      (if bucket = [] then AList.delete c (subscribers ?b1)
       else AList.update c bucket (subscribers ?b1))"
    by (simp add: unsubscribe_def m r Let_def)
  have "map_of (subscribers (unsubscribe c ?q ?b1)) c' =
      (if c' = c then (if bucket = [] then None else Some bucket)
       else map_of (subscribers b) c')"
    using other by (simp add: after update_conv' delete_conv')
  then show ?thesis
    unfolding listeners_def by (auto simp: bucket_def split: option.splits)
qed

text \<open>
  Claim C9, as the code has it. The queue the handler gets from \<^verbatim>\<open>subscribe\<close> is new,
  so it is not yet in the bucket of the id. However the generator is left (deadline,
  exception, client gone, or during the replay), that queue is not registered
  afterwards; while the loop is still running it is. The emitted events end with the
  terminal marker when the generator is left because the deadline passed, and contain
  no terminal marker on any other path. The generator is left as soon as the script
  holds a clock reading at or after the deadline, a fault or a disconnect.
\<close>

theorem stream_exit_paths:
  assumes "next_queue (bcast s) \<notin> set (listeners (bcast s) corr_id)"
  shows "let res = event_generator corr_id timeout replay now start script s;
             evs = fst (fst res); ex = snd (fst res); s' = snd res;
             queue = next_queue (bcast s)
         in (ex \<noteq> None \<longrightarrow> queue \<notin> set (listeners (bcast s') corr_id)) \<and>
            (ex = None \<longrightarrow> queue \<in> set (listeners (bcast s') corr_id)) \<and>
            (ex = Some Expired \<longrightarrow> evs \<noteq> [] \<and> last evs = TimeoutMarker) \<and>
            (ex \<noteq> Some Expired \<longrightarrow> TimeoutMarker \<notin> set evs) \<and>
            (replay \<noteq> None \<or>
             (\<exists>p \<in> set script. start + of_int timeout \<le> fst p \<or> snd p = Fault \<or>
                               snd p = Disconnect) \<longrightarrow> ex \<noteq> None)"
proof (cases replay)
  case (Some n)
  have "TimeoutMarker \<notin> set (take n (map Data (query_traces corr_id None None (db s))))"
    by (auto dest: in_set_takeD)
  with Some assms show ?thesis
    by (simp add: event_generator_def Let_def)
next
  case None
  let ?d = "start + of_int timeout"
  obtain evs ex where l: "stream_loop ?d script = (evs, ex)"
    by (cases "stream_loop ?d script")
  have nm: "TimeoutMarker \<notin> set evs"
    using stream_loop_no_marker [of ?d script] l by simp
  have nm': "TimeoutMarker \<notin> set (map Data (query_traces corr_id None None (db s)))"
    by auto
  have left: "(\<exists>p \<in> set script. ?d \<le> fst p \<or> snd p = Fault \<or> snd p = Disconnect) \<longrightarrow>
                ex \<noteq> None"
    using stream_loop_left [of script ?d] l by auto
  obtain q b1 where sub: "subscribe now corr_id (bcast s) = (q, b1)"
    by (cases "subscribe now corr_id (bcast s)")
  then have q: "q = next_queue (bcast s)" and b1: "b1 = snd (subscribe now corr_id (bcast s))"
    by (auto simp: subscribe_def Let_def)
  have un: "listeners (unsubscribe corr_id q b1) c = listeners (bcast s) c" for c
    unfolding q b1 using assms by (rule unsubscribe_subscribe)
  have reg: "q \<in> set (listeners b1 corr_id)"
    unfolding q b1 by (simp add: subscribe_listeners)
  show ?thesis
  proof (cases ex)
    case None': None
    with None l sub reg left nm nm' show ?thesis
      by (simp add: event_generator_def Let_def q)
  next
    case (Some e)
    with None l sub un assms nm nm' show ?thesis
      by (cases e) (simp_all add: event_generator_def Let_def q)
  qed
qed


theorem stream_exit_paths_witness:
  "snd (fst (event_generator ''c1'' 60 None 0 0
       [(1, Idle), (2, Deliver entry_c1), (61, Idle)] initial_hub)) = Some Expired \<and>
   last (fst (fst (event_generator ''c1'' 60 None 0 0
       [(1, Idle), (2, Deliver entry_c1), (61, Idle)] initial_hub))) = TimeoutMarker \<and>
   0 \<notin> set (listeners (bcast (snd (event_generator ''c1'' 60 None 0 0
       [(1, Idle), (2, Deliver entry_c1), (61, Idle)] initial_hub))) ''c1'') \<and>
   snd (fst (event_generator ''c1'' 60 None 0 0 [(1, Idle), (2, Fault)] initial_hub))
     = Some Raised \<and>
   TimeoutMarker \<notin> set (fst (fst (event_generator ''c1'' 60 None 0 0
       [(1, Idle), (2, Fault)] initial_hub))) \<and>
   0 \<notin> set (listeners (bcast (snd (event_generator ''c1'' 60 None 0 0
       [(1, Idle), (2, Fault)] initial_hub))) ''c1'')"
proof -
  have fresh: "next_queue (bcast initial_hub) \<notin> set (listeners (bcast initial_hub) ''c1'')"
    and q: "next_queue (bcast initial_hub) = 0"
    by (simp_all add: initial_hub_def no_subscribers_def listeners_def)
  have a: "snd (fst (event_generator ''c1'' 60 None 0 0
       [(1, Idle), (2, Deliver entry_c1), (61, Idle)] initial_hub)) = Some Expired"
    and b: "snd (fst (event_generator ''c1'' 60 None 0 0 [(1, Idle), (2, Fault)] initial_hub))
       = Some Raised"
    by (simp_all add: event_generator_def Let_def split: prod.splits)
  from stream_exit_paths [OF fresh, of 60 None 0 0
      "[(1, Idle), (2, Deliver entry_c1), (61, Idle)]"]
    stream_exit_paths [OF fresh, of 60 None 0 0 "[(1, Idle), (2, Fault)]"]
  show ?thesis
    unfolding Let_def q a b by simp
qed

text \<open>
  An exception in the second round of the loop, or a client that goes away there: the
  handler is left and the last event sent is a keepalive or an entry, not a terminal
  marker.
\<close>

theorem stream_exit_paths_counterexample:
  "fst (event_generator ''c1'' 60 None 0 0 [(1, Idle), (2, Fault)] initial_hub)
     = ([KeepaliveComment], Some Raised) \<and>
   fst (event_generator ''c1'' 60 None 0 0 [(1, Deliver entry_c1), (2, Disconnect)] initial_hub)
     = ([Data entry_c1], Some Disconnected)"
  by (simp add: event_generator_def Let_def query_traces_def initial_hub_def empty_table_def
        split: prod.splits)

end
